theory Spec2Isabelle
  imports Main "HOL-Library.Word" "HOL-Library.AList"
begin

section \<open>Flight data recorder: a shallow embedding of FlightDataRecorder.ino\<close>

text \<open>
  The sketch runs on an ESP32-S3: \<open>int\<close> and \<open>long\<close> are 32-bit two's complement,
  \<open>unsigned long\<close> is a 32-bit word. Signed values are modelled as \<open>int\<close> with the
  32-bit range written out; the millisecond clock is a \<open>32 word\<close>.
\<close>

subsection \<open>The Arduino String operations the sketch calls\<close>

text \<open>
  \<open>String\<close> is a byte string. The operations below are the Arduino core's:
  \<open>startsWith\<close> and \<open>endsWith\<close> compare a prefix or suffix of the same length,
  \<open>substring(left, right)\<close> swaps its bounds when they are out of order, returns the
  empty string when \<open>left\<close> is past the end and cuts \<open>right\<close> at the length,
  \<open>toInt\<close> is the C library's \<open>atol\<close>, and \<open>String(n)\<close> is the decimal text of \<open>n\<close>.
\<close>

definition startsWith :: "string \<Rightarrow> string \<Rightarrow> bool" where
  "startsWith s p = (length p \<le> length s \<and> take (length p) s = p)"

definition endsWith :: "string \<Rightarrow> string \<Rightarrow> bool" where
  "endsWith s e = (length e \<le> length s \<and> drop (length s - length e) s = e)"

definition substring :: "string \<Rightarrow> nat \<Rightarrow> nat \<Rightarrow> string" where
  "substring s left right =
     (let l = (if left > right then right else left);
          r = (if left > right then left else right)
      in if l \<ge> length s then []
         else take ((if r > length s then length s else r) - l) (drop l s))"

definition isSpace :: "char \<Rightarrow> bool" where
  "isSpace c = (c = CHR '' '' \<or> (9 \<le> (of_char c :: nat) \<and> (of_char c :: nat) \<le> 13))"

definition isDigit :: "char \<Rightarrow> bool" where
  "isDigit c = (48 \<le> (of_char c :: nat) \<and> (of_char c :: nat) \<le> 57)"

definition digitValue :: "char \<Rightarrow> nat" where
  "digitValue c = of_char c - 48"

definition decimalValue :: "string \<Rightarrow> nat" where
  "decimalValue ds = foldl (\<lambda>acc c. 10 * acc + digitValue c) 0 ds"

definition LONG_MAX :: int where
  "LONG_MAX = 2147483647"

definition LONG_MIN :: int where
  "LONG_MIN = - 2147483648"

definition clampLong :: "int \<Rightarrow> int" where
  "clampLong x = (if x > LONG_MAX then LONG_MAX else if x < LONG_MIN then LONG_MIN else x)"

text \<open>
  \<open>atol\<close> (that is \<open>strtol\<close> in base 10): skip leading white space, read an optional
  sign, then the longest run of decimal digits; text with no digits there is 0, and a
  value outside the range of \<open>long\<close> saturates.
\<close>

definition toInt :: "string \<Rightarrow> int" where
  "toInt s =
     (case dropWhile isSpace s of
        [] \<Rightarrow> 0
      | c # cs \<Rightarrow>
          if c = CHR ''-'' then clampLong (- int (decimalValue (takeWhile isDigit cs)))
          else if c = CHR ''+'' then clampLong (int (decimalValue (takeWhile isDigit cs)))
          else clampLong (int (decimalValue (takeWhile isDigit (c # cs)))))"

definition digitChar :: "nat \<Rightarrow> char" where
  "digitChar d = char_of (48 + d)"

fun decimalText :: "nat \<Rightarrow> string" where
  "decimalText n = (if n < 10 then [digitChar n] else decimalText (n div 10) @ [digitChar (n mod 10)])"

declare decimalText.simps [simp del]

definition String_int :: "int \<Rightarrow> string" where
  "String_int n = (if n < 0 then CHR ''-'' # decimalText (nat (- n)) else decimalText (nat n))"

definition String_ulong :: "32 word \<Rightarrow> string" where
  "String_ulong w = decimalText (unat w)"

subsection \<open>File naming\<close>

definition FILE_PREFIX :: string where
  "FILE_PREFIX = ''flight_''"

definition FILE_EXTENSION :: string where
  "FILE_EXTENSION = ''.csv''"

text \<open>
  \<open>padNumber\<close>: the loop test \<open>result.length() < width\<close> compares an \<open>unsigned int\<close>
  with an \<open>int\<close>, so \<open>width\<close> is read as unsigned (modulo \<open>2 ^ 32\<close>).
\<close>

function padLoop :: "string \<Rightarrow> int \<Rightarrow> string" where
  "padLoop result width =
     (if int (length result) < width mod 2 ^ 32 then padLoop (''0'' @ result) width else result)"
  by pat_completeness auto
termination
  by (relation "measure (\<lambda>(result, width). nat (width mod 2 ^ 32) - length result)") auto

declare padLoop.simps [simp del]

definition padNumber :: "int \<Rightarrow> int \<Rightarrow> string" where
  "padNumber number width = padLoop (String_int number) width"

text \<open>
  The addition \<open>maxNumber + 1\<close> on a 32-bit \<open>int\<close>: two's complement wrap-around.
\<close>

definition wrapInt :: "int \<Rightarrow> int" where
  "wrapInt x = (x + 2 ^ 31) mod 2 ^ 32 - 2 ^ 31"

text \<open>
  The scan of \<open>findNextFileNumber\<close>: the \<open>while (file)\<close> loop over the entries of the
  root directory, as the names \<open>file.name()\<close> reports, with \<open>maxNumber\<close> carried along.
  In the guarded branch the name is at least as long as the extension, so the unsigned
  subtraction \<open>fileName.length() - FILE_EXTENSION.length()\<close> does not wrap.
\<close>

fun scanFiles :: "int \<Rightarrow> string list \<Rightarrow> int" where
  "scanFiles maxNumber [] = maxNumber"
| "scanFiles maxNumber (fileName # rest) =
     (if startsWith fileName FILE_PREFIX \<and> endsWith fileName FILE_EXTENSION then
        (let numberPart = substring fileName (length FILE_PREFIX)
                            (length fileName - length FILE_EXTENSION);
             currentNumber = toInt numberPart
         in if currentNumber > maxNumber then scanFiles currentNumber rest
            else scanFiles maxNumber rest)
      else scanFiles maxNumber rest)"

text \<open>
  \<open>findNextFileNumber\<close>: \<open>None\<close> is a root directory that cannot be opened (the function
  returns 0), \<open>Some names\<close> the listing.
\<close>

definition findNextFileNumber :: "string list option \<Rightarrow> int" where
  "findNextFileNumber root =
     (case root of
        None \<Rightarrow> 0
      | Some names \<Rightarrow> wrapInt (scanFiles 0 names + 1))"

text \<open>
  Named parts of the scan's body, for stating what it computes: the guard of the
  \<open>if\<close>, the text between prefix and extension, and the number read from it.
\<close>

definition isFlightFile :: "string \<Rightarrow> bool" where
  "isFlightFile fileName = (startsWith fileName FILE_PREFIX \<and> endsWith fileName FILE_EXTENSION)"

definition numberPart :: "string \<Rightarrow> string" where
  "numberPart fileName =
     substring fileName (length FILE_PREFIX) (length fileName - length FILE_EXTENSION)"

definition flightNumber :: "string \<Rightarrow> int" where
  "flightNumber fileName = toInt (numberPart fileName)"

text \<open>
  The allocation as the specification words it: only names of the shape
  prefix, digits, extension count, each with the number its digits spell.
\<close>

definition matchesPattern :: "string \<Rightarrow> bool" where
  "matchesPattern fileName =
     (isFlightFile fileName \<and> numberPart fileName \<noteq> [] \<and> list_all isDigit (numberPart fileName))"

definition specNextNumber :: "string list \<Rightarrow> int" where
  "specNextNumber names =
     fold max (map (\<lambda>f. int (decimalValue (numberPart f))) (filter matchesPattern names)) 0 + 1"

text \<open>The path \<open>setup\<close> builds for the session file.\<close>

definition sessionFileName :: "int \<Rightarrow> string" where
  "sessionFileName fileNumber = ''/'' @ FILE_PREFIX @ padNumber fileNumber 5 @ FILE_EXTENSION"

subsection \<open>The recorder's state\<close>

datatype colour = Red | Green

text \<open>
  A file on the card: what has reached the medium, and what has been printed but not
  yet flushed. The card is the root directory, an association list from entry names
  (as \<open>file.name()\<close> reports them, without the leading slash) to files.
\<close>

record sdfile =
  durable :: string
  pending :: string

type_synonym sdcard = "(string \<times> sdfile) list"

text \<open>
  The globals of the sketch. \<open>shown\<close> is the history of the pixel: one entry for every
  \<open>leds[0] = c; FastLED.show()\<close>, newest first. \<open>dataFile\<close> is the open handle (the
  entry it refers to), \<open>None\<close> when the handle is invalid. \<open>SD_MMC\<close> is the content of
  the card.
\<close>

record fdr =
  shown :: "colour list"
  lastReadTime :: "32 word"
  dataFileName :: string
  dataFile :: "string option"
  SD_MMC :: sdcard

definition powerOn :: "sdcard \<Rightarrow> fdr" where
  "powerOn c = \<lparr>shown = [], lastReadTime = 0, dataFileName = [], dataFile = None, SD_MMC = c\<rparr>"

definition indicator :: "fdr \<Rightarrow> colour option" where
  "indicator st = (case shown st of [] \<Rightarrow> None | c # _ \<Rightarrow> Some c)"

definition fileContent :: "fdr \<Rightarrow> sdfile option" where
  "fileContent st = (case dataFile st of None \<Rightarrow> None | Some nm \<Rightarrow> map_of (SD_MMC st) nm)"

definition setLED :: "colour \<Rightarrow> fdr \<Rightarrow> fdr" where
  "setLED c st = st\<lparr>shown := c # shown st\<rparr>"

subsection \<open>Storage calls\<close>

text \<open>
  Every call on the file takes its outcome from the environment: \<open>ok\<close> says whether the
  medium accepted it. A rejected call, and a call on an invalid handle, changes nothing.
  The sketch never reads these outcomes.
\<close>

definition CRLF :: string where
  "CRLF = [CHR 0x0D, CHR 0x0A]"

definition filePrint :: "bool \<Rightarrow> string \<Rightarrow> fdr \<Rightarrow> fdr" where
  "filePrint ok s st =
     (case dataFile st of
        None \<Rightarrow> st
      | Some nm \<Rightarrow>
          if ok then st\<lparr>SD_MMC := AList.map_entry nm (\<lambda>f. f\<lparr>pending := pending f @ s\<rparr>) (SD_MMC st)\<rparr>
          else st)"

definition filePrintln :: "bool \<Rightarrow> string \<Rightarrow> fdr \<Rightarrow> fdr" where
  "filePrintln ok s st = filePrint ok (s @ CRLF) st"

definition fileFlush :: "bool \<Rightarrow> fdr \<Rightarrow> fdr" where
  "fileFlush ok st =
     (case dataFile st of
        None \<Rightarrow> st
      | Some nm \<Rightarrow>
          if ok then
            st\<lparr>SD_MMC := AList.map_entry nm
                  (\<lambda>f. \<lparr>durable = durable f @ pending f, pending = []\<rparr>) (SD_MMC st)\<rparr>
          else st)"

definition entryName :: "string \<Rightarrow> string" where
  "entryName path = (case path of [] \<Rightarrow> [] | c # cs \<Rightarrow> if c = CHR ''/'' then cs else path)"

text \<open>\<open>SD_MMC.open(path, FILE_WRITE)\<close>: creates the entry, or empties an existing one.\<close>

definition openWrite :: "bool \<Rightarrow> string \<Rightarrow> fdr \<Rightarrow> fdr" where
  "openWrite ok path st =
     (if ok then
        st\<lparr>dataFile := Some (entryName path),
           SD_MMC := AList.update (entryName path) \<lparr>durable = [], pending = []\<rparr> (SD_MMC st)\<rparr>
      else st\<lparr>dataFile := None\<rparr>)"

subsection \<open>setup\<close>

text \<open>
  What the hardware answers during \<open>setup\<close>: \<open>bmp.begin_I2C()\<close>, \<open>SD_MMC.setPins\<close>,
  \<open>SD_MMC.begin()\<close>, whether the root directory opens for the scan, whether the
  session file opens, and the outcomes of the two calls that write the header
  (0: \<open>println\<close>, 1: \<open>flush\<close>).
\<close>

record hardware =
  sensorFound :: bool
  pinsAssigned :: bool
  cardMounted :: bool
  rootOpens :: bool
  fileCreated :: bool
  headerAccepted :: "nat \<Rightarrow> bool"

datatype fatal = NoSensor | PinAssignment | CardInit | FileCreation

definition HEADER :: string where
  "HEADER = ''Timestamp,Altitude(m),Pressure(hPa),Temperature(C)''"

text \<open>
  \<open>setup\<close> (here \<open>setup'\<close>) returns \<open>Inl\<close> where the sketch enters \<open>while (1);\<close>, with the state it spins
  in, and \<open>Inr\<close> where it returns. The delays, the serial output and the sensor's
  configuration have no effect on this state.
\<close>

definition setup' :: "hardware \<Rightarrow> fdr \<Rightarrow> (fatal \<times> fdr) + fdr" where
  "setup' hw st0 =
     (let st1 = setLED Red st0 in
      if \<not> sensorFound hw then Inl (NoSensor, st1)
      else if \<not> pinsAssigned hw then Inl (PinAssignment, st1)
      else if \<not> cardMounted hw then Inl (CardInit, st1)
      else
        let fileNumber =
              findNextFileNumber (if rootOpens hw then Some (map fst (SD_MMC st1)) else None);
            st2 = st1\<lparr>dataFileName := sessionFileName fileNumber\<rparr>;
            st3 = openWrite (fileCreated hw) (dataFileName st2) st2
        in if dataFile st3 = None then Inl (FileCreation, st3)
           else
             let st4 = filePrintln (headerAccepted hw 0) HEADER st3;
                 st5 = fileFlush (headerAccepted hw 1) st4
             in Inr (setLED Green st5))"

definition halted :: "(fatal \<times> fdr) + fdr \<Rightarrow> bool" where
  "halted r = (case r of Inl _ \<Rightarrow> True | Inr _ \<Rightarrow> False)"

definition stateOf :: "(fatal \<times> fdr) + fdr \<Rightarrow> fdr" where
  "stateOf r = (case r of Inl (e, st) \<Rightarrow> st | Inr st \<Rightarrow> st)"

subsection \<open>recordDataPoint and loop\<close>

text \<open>
  A reading as \<open>Print::print(float)\<close> renders its three values (two decimals); the
  floating-point arithmetic behind them is not modelled.
\<close>

record reading =
  altitude :: string
  pressure :: string
  temperature :: string

text \<open>
  What the environment answers during one pass of \<open>loop\<close>: \<open>millis()\<close> as \<open>loop\<close> reads it,
  \<open>bmp.performReading()\<close> (\<open>None\<close> when it fails), \<open>millis()\<close> as \<open>getTimestamp\<close> reads it,
  and the outcomes of the eight storage calls of \<open>recordDataPoint\<close> (0 to 6: the
  prints in order, 7: \<open>flush\<close>).
\<close>

record tick =
  millisLoop :: "32 word"
  sensor :: "reading option"
  millisStamp :: "32 word"
  accepted :: "nat \<Rightarrow> bool"

definition READ_INTERVAL :: "32 word" where
  "READ_INTERVAL = 50"

definition getTimestamp :: "tick \<Rightarrow> string" where
  "getTimestamp tk = String_ulong (millisStamp tk)"

definition recordDataPoint :: "tick \<Rightarrow> fdr \<Rightarrow> fdr" where
  "recordDataPoint tk st =
     (case sensor tk of
        Some r \<Rightarrow>
          (let s0 = filePrint (accepted tk 0) (getTimestamp tk) st;
               s1 = filePrint (accepted tk 1) '','' s0;
               s2 = filePrint (accepted tk 2) (altitude r) s1;
               s3 = filePrint (accepted tk 3) '','' s2;
               s4 = filePrint (accepted tk 4) (pressure r) s3;
               s5 = filePrint (accepted tk 5) '','' s4;
               s6 = filePrintln (accepted tk 6) (temperature r) s5;
               s7 = fileFlush (accepted tk 7) s6
           in setLED Green s7)
      | None \<Rightarrow> setLED Red st)"

definition loop :: "tick \<Rightarrow> fdr \<Rightarrow> fdr" where
  "loop tk st =
     (let currentTime = millisLoop tk in
      if currentTime - lastReadTime st \<ge> READ_INTERVAL then
        (recordDataPoint tk st)\<lparr>lastReadTime := currentTime\<rparr>
      else st)"

text \<open>
  The whole run: \<open>setup\<close>, then one pass of \<open>loop\<close> for each element of \<open>ticks\<close>. Where
  \<open>setup\<close> spins in \<open>while (1);\<close> no pass of \<open>loop\<close> ever runs, so the state after any
  number of them is the one \<open>setup\<close> left.
\<close>

definition firmware :: "hardware \<Rightarrow> sdcard \<Rightarrow> tick list \<Rightarrow> fdr" where
  "firmware hw c ticks =
     (case setup' hw (powerOn c) of
        Inl (e, st) \<Rightarrow> st
      | Inr st \<Rightarrow> fold loop ticks st)"

text \<open>Observations used in the statements below.\<close>

definition allAccepted :: "(nat \<Rightarrow> bool) \<Rightarrow> bool" where
  "allAccepted a = (a 0 \<and> a 1 \<and> a 2 \<and> a 3 \<and> a 4 \<and> a 5 \<and> a 6 \<and> a 7)"

definition noneAccepted :: "(nat \<Rightarrow> bool) \<Rightarrow> bool" where
  "noneAccepted a = (\<not> a 0 \<and> \<not> a 1 \<and> \<not> a 2 \<and> \<not> a 3 \<and> \<not> a 4 \<and> \<not> a 5 \<and> \<not> a 6 \<and> \<not> a 7)"

definition always :: "nat \<Rightarrow> bool" where
  "always k = True"

definition never :: "nat \<Rightarrow> bool" where
  "never k = False"

definition csvRow :: "tick \<Rightarrow> string" where
  "csvRow tk =
     (case sensor tk of
        None \<Rightarrow> []
      | Some r \<Rightarrow>
          String_ulong (millisStamp tk) @ '','' @ altitude r @ '','' @ pressure r @ '','' @
          temperature r @ CRLF)"

definition lineCount :: "string \<Rightarrow> nat" where
  "lineCount s = length (filter (\<lambda>c. c = CHR 0x0A) s)"

definition recorded :: "tick \<Rightarrow> bool" where
  "recorded tk = (sensor tk \<noteq> None \<and> allAccepted (accepted tk))"

definition oneLine :: "tick \<Rightarrow> bool" where
  "oneLine tk =
     (case sensor tk of
        None \<Rightarrow> True
      | Some r \<Rightarrow>
          CHR 0x0A \<notin> set (altitude r) \<and> CHR 0x0A \<notin> set (pressure r) \<and>
          CHR 0x0A \<notin> set (temperature r))"

definition durableOf :: "fdr \<Rightarrow> string option" where
  "durableOf st = map_option durable (fileContent st)"

subsection \<open>Concrete inputs\<close>

text \<open>
  The scenario of the specification: a card holding \<open>flight_00003.csv\<close> and
  \<open>notes.txt\<close>, hardware that answers every call, and the readings
  (1000, 12.5, 1008.2, 22.1) and (1050, 12.7, 1008.1, 22.1); further a pass of \<open>loop\<close>
  whose poll fails, one whose storage calls are all rejected, a later reading, a
  card that already holds \<open>flight_00000.csv\<close>, and a state whose last reading was
  taken shortly before the clock wraps.
\<close>

definition goodHardware :: hardware where
  "goodHardware = \<lparr>sensorFound = True, pinsAssigned = True, cardMounted = True,
     rootOpens = True, fileCreated = True, headerAccepted = always\<rparr>"

definition exampleCard :: sdcard where
  "exampleCard = [(''flight_00003.csv'', \<lparr>durable = ''old'', pending = []\<rparr>),
                  (''notes.txt'', \<lparr>durable = [], pending = []\<rparr>)]"

definition sampleA :: tick where
  "sampleA = \<lparr>millisLoop = 1000,
     sensor = Some \<lparr>altitude = ''12.50'', pressure = ''1008.20'', temperature = ''22.10''\<rparr>,
     millisStamp = 1000, accepted = always\<rparr>"

definition sampleB :: tick where
  "sampleB = \<lparr>millisLoop = 1050,
     sensor = Some \<lparr>altitude = ''12.70'', pressure = ''1008.10'', temperature = ''22.10''\<rparr>,
     millisStamp = 1050, accepted = always\<rparr>"

definition failingTick :: tick where
  "failingTick = \<lparr>millisLoop = 1100, sensor = None, millisStamp = 1100, accepted = always\<rparr>"

definition rejectedTick :: tick where
  "rejectedTick = sampleA\<lparr>accepted := never\<rparr>"

definition lateTick :: tick where
  "lateTick = sampleB\<lparr>millisLoop := 1200, millisStamp := 1200\<rparr>"


definition nearWrap :: fdr where
  "nearWrap = (powerOn [])\<lparr>lastReadTime := 4294967290\<rparr>"

section \<open>Decimal text and padding\<close>

lemma isDigit_digitChar: "d < 10 \<Longrightarrow> isDigit (digitChar d)"
  by (simp add: isDigit_def digitChar_def)

lemma digitValue_digitChar: "d < 10 \<Longrightarrow> digitValue (digitChar d) = d"
  by (simp add: digitValue_def digitChar_def)

lemma decimalText_digits: "list_all isDigit (decimalText n)"
proof (induction n rule: decimalText.induct)
  case (1 n)
  show ?case
  proof (cases "n < 10")
    case True
    then show ?thesis by (simp add: decimalText.simps [of n] isDigit_digitChar)
  next
    case False
    with 1 show ?thesis by (simp add: decimalText.simps [of n] isDigit_digitChar)
  qed
qed

lemma decimalText_length: "0 < k \<Longrightarrow> n < 10 ^ k \<Longrightarrow> length (decimalText n) \<le> k"
proof (induction n arbitrary: k rule: decimalText.induct)
  case (1 n)
  show ?case
  proof (cases "n < 10")
    case True
    with 1 show ?thesis by (simp add: decimalText.simps [of n])
  next
    case False
    with 1(2,3) have k1: "1 < k" by (cases "k = 1") auto
    then obtain j where j: "k = Suc j" "0 < j" by (cases k) auto
    with 1(3) have "n div 10 < 10 ^ j" by (simp add: less_mult_imp_div_less mult.commute)
    with 1(1) [OF False j(2)] have "length (decimalText (n div 10)) \<le> j" by simp
    with False j show ?thesis by (simp add: decimalText.simps [of n])
  qed
qed

lemma decimalText_nonempty: "decimalText n \<noteq> []"
  by (simp add: decimalText.simps [of n])

lemma decimalValue_snoc: "decimalValue (ds @ [c]) = 10 * decimalValue ds + digitValue c"
  by (simp add: decimalValue_def)

lemma decimalValue_decimalText: "decimalValue (decimalText n) = n"
proof (induction n rule: decimalText.induct)
  case (1 n)
  show ?case
  proof (cases "n < 10")
    case True
    then show ?thesis by (simp add: decimalText.simps [of n] decimalValue_def digitValue_digitChar)
  next
    case False
    with 1 show ?thesis
      by (simp add: decimalText.simps [of n] decimalValue_snoc digitValue_digitChar)
  qed
qed

lemma padLoop_replicate:
  "padLoop result width = replicate (nat (width mod 2 ^ 32) - length result) CHR ''0'' @ result"
proof (induction result width rule: padLoop.induct)
  case (1 result width)
  show ?case
  proof (cases "int (length result) < width mod 2 ^ 32")
    case True
    then have "nat (width mod 2 ^ 32) - length result = Suc (nat (width mod 2 ^ 32) - Suc (length result))"
      by linarith
    with True 1 show ?thesis
      by (simp add: padLoop.simps [of result width] replicate_app_Cons_same)
  next
    case False
    then show ?thesis by (simp add: padLoop.simps [of result width])
  qed
qed

lemma decimalValue_zeros: "decimalValue (replicate k CHR ''0'' @ ds) = decimalValue ds"
proof -
  have "foldl (\<lambda>acc c. 10 * acc + digitValue c) 0 (replicate k CHR ''0'') = 0"
    by (induction k) (simp_all add: digitValue_def)
  then show ?thesis by (simp add: decimalValue_def)
qed

lemma isDigit_not_space: "isDigit c \<Longrightarrow> \<not> isSpace c"
  by (auto simp: isDigit_def isSpace_def)

lemma isDigit_not_sign: "isDigit c \<Longrightarrow> c \<noteq> CHR ''-'' \<and> c \<noteq> CHR ''+''"
  by (auto simp: isDigit_def)

lemma toInt_digits:
  assumes "list_all isDigit ds"
  shows "toInt ds = clampLong (int (decimalValue ds))"
proof (cases ds)
  case Nil
  then show ?thesis by (simp add: toInt_def decimalValue_def clampLong_def LONG_MAX_def LONG_MIN_def)
next
  case (Cons c cs)
  with assms have c: "isDigit c" and cs: "list_all isDigit cs" by simp_all
  from cs have tw: "takeWhile isDigit cs = cs" by (simp add: list_all_iff)
  from c Cons show ?thesis
    using isDigit_not_space [OF c] isDigit_not_sign [OF c]
    by (simp add: toInt_def tw)
qed

lemma clampLong_id: "LONG_MIN \<le> x \<Longrightarrow> x \<le> LONG_MAX \<Longrightarrow> clampLong x = x"
  by (simp add: clampLong_def)

lemma clampLong_range: "LONG_MIN \<le> clampLong x \<and> clampLong x \<le> LONG_MAX"
  by (simp add: clampLong_def LONG_MIN_def LONG_MAX_def)

lemma toInt_range: "LONG_MIN \<le> toInt s \<and> toInt s \<le> LONG_MAX"
  using clampLong_range
  by (simp add: toInt_def LONG_MIN_def LONG_MAX_def split: list.splits)

lemma wrapInt_id: "LONG_MIN \<le> x \<Longrightarrow> x \<le> LONG_MAX \<Longrightarrow> wrapInt x = x"
  by (simp add: wrapInt_def LONG_MIN_def LONG_MAX_def)

lemma String_int_nat: "0 \<le> n \<Longrightarrow> String_int n = decimalText (nat n)"
  by (simp add: String_int_def)

lemma padNumber_decimal:
  assumes "1 \<le> n" "n \<le> 99999"
  shows "length (padNumber n 5) = 5"
    and "list_all isDigit (padNumber n 5)"
    and "padNumber n 5 = replicate (5 - length (String_int n)) CHR ''0'' @ String_int n"
    and "toInt (padNumber n 5) = n"
proof -
  from assms have s: "String_int n = decimalText (nat n)" by (simp add: String_int_nat)
  from assms have "nat n < 10 ^ 5" by simp
  then have len: "length (decimalText (nat n)) \<le> 5"
    using decimalText_length [of 5 "nat n"] by simp
  show p: "padNumber n 5 = replicate (5 - length (String_int n)) CHR ''0'' @ String_int n"
    by (simp add: padNumber_def padLoop_replicate)
  from len show "length (padNumber n 5) = 5" by (simp add: p s)
  have z: "list_all isDigit (replicate k CHR ''0'')" for k
    by (simp add: list_all_iff isDigit_def)
  show d: "list_all isDigit (padNumber n 5)"
    by (simp add: p s z decimalText_digits)
  have "toInt (padNumber n 5) = clampLong (int (decimalValue (padNumber n 5)))"
    by (rule toInt_digits [OF d])
  also have "\<dots> = clampLong n"
    using assms by (simp add: p s decimalValue_zeros decimalValue_decimalText)
  also have "\<dots> = n"
    using assms by (simp add: clampLong_def LONG_MAX_def LONG_MIN_def)
  finally show "toInt (padNumber n 5) = n" .
qed

lemma scanFiles_Cons:
  "scanFiles m (f # rest) =
     scanFiles (if isFlightFile f \<and> flightNumber f > m then flightNumber f else m) rest"
  by (simp add: isFlightFile_def flightNumber_def numberPart_def Let_def)

lemma scanFiles_fold:
  "scanFiles m names = fold max (map flightNumber (filter isFlightFile names)) m"
proof (induction names arbitrary: m)
  case Nil
  then show ?case by simp
next
  case (Cons f names)
  have "scanFiles m (f # names) =
      scanFiles (if isFlightFile f \<and> flightNumber f > m then flightNumber f else m) names"
    by (rule scanFiles_Cons)
  also have "\<dots> = fold max (map flightNumber (filter isFlightFile names))
      (if isFlightFile f \<and> flightNumber f > m then flightNumber f else m)"
    by (rule Cons.IH)
  also have "\<dots> = fold max (map flightNumber (filter isFlightFile (f # names))) m"
    by (simp add: max_def)
  finally show ?case .
qed

lemma scanFiles_Max:
  "scanFiles m names = Max (insert m (flightNumber ` {f \<in> set names. isFlightFile f}))"
proof -
  have "Max (set (m # map flightNumber (filter isFlightFile names)))
      = fold max (map flightNumber (filter isFlightFile names)) m"
    by (rule Max.set_eq_fold)
  moreover have "set (m # map flightNumber (filter isFlightFile names))
      = insert m (flightNumber ` {f \<in> set names. isFlightFile f})"
    by auto
  ultimately show ?thesis by (simp add: scanFiles_fold)
qed

lemma scanFiles_filter: "scanFiles m (filter isFlightFile names) = scanFiles m names"
  by (simp add: scanFiles_fold)

lemma scanFiles_range:
  "LONG_MIN \<le> m \<Longrightarrow> m \<le> LONG_MAX \<Longrightarrow> LONG_MIN \<le> scanFiles m names \<and> scanFiles m names \<le> LONG_MAX"
proof (induction names arbitrary: m)
  case Nil
  then show ?case by simp
next
  case (Cons f names)
  have "LONG_MIN \<le> flightNumber f \<and> flightNumber f \<le> LONG_MAX"
    unfolding flightNumber_def by (rule toInt_range)
  with Cons.prems show ?case
    unfolding scanFiles_Cons by (intro Cons.IH) simp_all
qed

lemma isFlightFile_affix: "isFlightFile (FILE_PREFIX @ mid @ FILE_EXTENSION)"
  by (simp add: isFlightFile_def startsWith_def endsWith_def)

lemma numberPart_affix: "numberPart (FILE_PREFIX @ mid @ FILE_EXTENSION) = mid"
  by (simp add: numberPart_def substring_def FILE_PREFIX_def FILE_EXTENSION_def)

lemma length_FILE_PREFIX: "length FILE_PREFIX = 7"
  by (simp add: FILE_PREFIX_def)

lemma length_FILE_EXTENSION: "length FILE_EXTENSION = 4"
  by (simp add: FILE_EXTENSION_def)

lemma isFlightFile_parts:
  assumes "isFlightFile f"
  shows "take 7 f = FILE_PREFIX" and "7 \<le> length f" and "drop (length f - 4) f = FILE_EXTENSION"
  using assms
  by (simp_all add: isFlightFile_def startsWith_def endsWith_def
      length_FILE_PREFIX length_FILE_EXTENSION)

lemma isFlightFile_long:
  assumes "isFlightFile f"
  shows "11 \<le> length f"
proof (rule ccontr)
  assume "\<not> 11 \<le> length f"
  then have short: "length f < 11" by simp
  from isFlightFile_parts [OF assms]
  have p: "take 7 f = ''flight_''" and l7: "7 \<le> length f"
    and e: "drop (length f - 4) f = ''.csv''"
    by (simp_all add: FILE_PREFIX_def FILE_EXTENSION_def)
  from l7 short have "length f - 4 < 7" "length f - 4 \<ge> 3" by simp_all
  then consider "length f - 4 = 3" | "length f - 4 = 4" | "length f - 4 = 5" | "length f - 4 = 6"
    by linarith
  then have "hd (drop (length f - 4) f) \<in> {CHR ''g'', CHR ''h'', CHR ''t'', CHR ''_''}"
  proof cases
    case 1
    have "hd (drop 3 f) = take 7 f ! 3" using l7 by (simp add: hd_drop_conv_nth)
    with 1 p show ?thesis by simp
  next
    case 2
    have "hd (drop 4 f) = take 7 f ! 4" using l7 by (simp add: hd_drop_conv_nth)
    with 2 p show ?thesis by simp
  next
    case 3
    have "hd (drop 5 f) = take 7 f ! 5" using l7 by (simp add: hd_drop_conv_nth)
    with 3 p show ?thesis by simp
  next
    case 4
    have "hd (drop 6 f) = take 7 f ! 6" using l7 by (simp add: hd_drop_conv_nth)
    with 4 p show ?thesis by simp
  qed
  with e show False by simp
qed

lemma isFlightFile_iff: "isFlightFile f \<longleftrightarrow> (\<exists>mid. f = FILE_PREFIX @ mid @ FILE_EXTENSION)"
proof
  assume a: "isFlightFile f"
  then have len: "11 \<le> length f" by (rule isFlightFile_long)
  from isFlightFile_parts [OF a]
  have p: "take 7 f = FILE_PREFIX" and e: "drop (length f - 4) f = FILE_EXTENSION"
    by simp_all
  have "f = take 7 f @ drop 7 f" by simp
  also have "drop 7 f = take (length f - 11) (drop 7 f) @ drop (length f - 11) (drop 7 f)"
    by (rule append_take_drop_id [symmetric])
  also have "drop (length f - 11) (drop 7 f) = drop (length f - 4) f" using len by simp
  finally have "f = FILE_PREFIX @ take (length f - 11) (drop 7 f) @ FILE_EXTENSION"
    by (simp only: p e)
  then show "\<exists>mid. f = FILE_PREFIX @ mid @ FILE_EXTENSION" ..
next
  assume "\<exists>mid. f = FILE_PREFIX @ mid @ FILE_EXTENSION"
  then show "isFlightFile f" using isFlightFile_affix by auto
qed

section \<open>Storage calls, setup and loop: what each changes\<close>

lemma setLED_fields [simp]:
  "shown (setLED c st) = c # shown st"
  "lastReadTime (setLED c st) = lastReadTime st"
  "dataFileName (setLED c st) = dataFileName st"
  "dataFile (setLED c st) = dataFile st"
  "SD_MMC (setLED c st) = SD_MMC st"
  by (simp_all add: setLED_def)

lemma filePrint_fields [simp]:
  "shown (filePrint ok s st) = shown st"
  "lastReadTime (filePrint ok s st) = lastReadTime st"
  "dataFileName (filePrint ok s st) = dataFileName st"
  "dataFile (filePrint ok s st) = dataFile st"
  by (simp_all add: filePrint_def split: option.splits)

lemma fileFlush_fields [simp]:
  "shown (fileFlush ok st) = shown st"
  "lastReadTime (fileFlush ok st) = lastReadTime st"
  "dataFileName (fileFlush ok st) = dataFileName st"
  "dataFile (fileFlush ok st) = dataFile st"
  by (simp_all add: fileFlush_def split: option.splits)

lemma filePrint_rejected [simp]: "filePrint False s st = st"
  by (simp add: filePrint_def split: option.splits)

lemma fileFlush_rejected [simp]: "fileFlush False st = st"
  by (simp add: fileFlush_def split: option.splits)

lemma fileContent_setLED [simp]: "fileContent (setLED c st) = fileContent st"
  by (simp add: fileContent_def split: option.splits)

lemma fileContent_filePrint:
  "fileContent (filePrint True s st) =
     map_option (\<lambda>f. f\<lparr>pending := pending f @ s\<rparr>) (fileContent st)"
  by (simp add: fileContent_def filePrint_def map_of_map_entry split: option.splits)

lemma fileContent_fileFlush:
  "fileContent (fileFlush True st) =
     map_option (\<lambda>f. \<lparr>durable = durable f @ pending f, pending = []\<rparr>) (fileContent st)"
  by (simp add: fileContent_def fileFlush_def map_of_map_entry split: option.splits)

lemma recordDataPoint_fields [simp]:
  "lastReadTime (recordDataPoint tk st) = lastReadTime st"
  "dataFileName (recordDataPoint tk st) = dataFileName st"
  "dataFile (recordDataPoint tk st) = dataFile st"
  by (simp_all add: recordDataPoint_def filePrintln_def Let_def split: option.splits)

lemma recordDataPoint_shown:
  "shown (recordDataPoint tk st) = (case sensor tk of None \<Rightarrow> Red | Some r \<Rightarrow> Green) # shown st"
  by (simp add: recordDataPoint_def filePrintln_def Let_def split: option.splits)

lemma recordDataPoint_failed: "sensor tk = None \<Longrightarrow> recordDataPoint tk st = setLED Red st"
  by (simp add: recordDataPoint_def)

lemma recordDataPoint_none_accepted:
  "noneAccepted (accepted tk) \<Longrightarrow> SD_MMC (recordDataPoint tk st) = SD_MMC st"
  by (simp add: recordDataPoint_def noneAccepted_def filePrintln_def Let_def split: option.splits)

lemma recordDataPoint_row:
  assumes "sensor tk = Some r" and "allAccepted (accepted tk)"
  shows "fileContent (recordDataPoint tk st) =
     map_option (\<lambda>f. \<lparr>durable = durable f @ pending f @ csvRow tk, pending = []\<rparr>) (fileContent st)"
  using assms
  by (simp add: recordDataPoint_def allAccepted_def filePrintln_def Let_def getTimestamp_def
      csvRow_def fileContent_filePrint fileContent_fileFlush option.map_comp comp_def)

lemma openWrite_created:
  "dataFile (openWrite True path st) = Some (entryName path)"
  "fileContent (openWrite True path st) = Some \<lparr>durable = [], pending = []\<rparr>"
  "shown (openWrite ok path st) = shown st"
  by (simp_all add: openWrite_def fileContent_def update_conv')

lemma openWrite_failed: "openWrite False path st = st\<lparr>dataFile := None\<rparr>"
  by (simp add: openWrite_def)

lemma setup_no_sensor:
  "\<not> sensorFound hw \<Longrightarrow> setup' hw st = Inl (NoSensor, setLED Red st)"
  by (simp add: setup'_def)

lemma setup_no_pins:
  "sensorFound hw \<Longrightarrow> \<not> pinsAssigned hw \<Longrightarrow> setup' hw st = Inl (PinAssignment, setLED Red st)"
  by (simp add: setup'_def)

lemma setup_no_mount:
  "sensorFound hw \<Longrightarrow> pinsAssigned hw \<Longrightarrow> \<not> cardMounted hw \<Longrightarrow>
   setup' hw st = Inl (CardInit, setLED Red st)"
  by (simp add: setup'_def)

lemma setup_no_file:
  "sensorFound hw \<Longrightarrow> pinsAssigned hw \<Longrightarrow> cardMounted hw \<Longrightarrow> \<not> fileCreated hw \<Longrightarrow>
   setup' hw st =
     Inl (FileCreation,
          (setLED Red st)\<lparr>dataFileName := sessionFileName (findNextFileNumber
              (if rootOpens hw then Some (map fst (SD_MMC st)) else None)), dataFile := None\<rparr>)"
  by (simp add: setup'_def openWrite_failed Let_def)

lemma setup_failure:
  assumes "\<not> sensorFound hw \<or> \<not> pinsAssigned hw \<or> \<not> cardMounted hw \<or> \<not> fileCreated hw"
  shows "\<exists>e st. setup' hw (powerOn c) = Inl (e, st) \<and> shown st = [Red] \<and> SD_MMC st = c \<and>
           dataFile st = None"
proof -
  consider "\<not> sensorFound hw" | "sensorFound hw" "\<not> pinsAssigned hw"
    | "sensorFound hw" "pinsAssigned hw" "\<not> cardMounted hw"
    | "sensorFound hw" "pinsAssigned hw" "cardMounted hw" "\<not> fileCreated hw"
    using assms by blast
  then show ?thesis
  proof cases
    case 1
    then show ?thesis by (simp add: setup_no_sensor powerOn_def setLED_def)
  next
    case 2
    then show ?thesis by (simp add: setup_no_pins powerOn_def setLED_def)
  next
    case 3
    then show ?thesis by (simp add: setup_no_mount powerOn_def setLED_def)
  next
    case 4
    show ?thesis
      by (simp add: setup_no_file [OF 4] powerOn_def)
  qed
qed

lemma setup_success:
  assumes "sensorFound hw" "pinsAssigned hw" "cardMounted hw" "fileCreated hw"
  shows "\<exists>st. setup' hw (powerOn c) = Inr st \<and> shown st = [Green, Red] \<and>
           fileContent st =
             Some \<lparr>durable = (if headerAccepted hw 0 \<and> headerAccepted hw 1 then HEADER @ CRLF else []),
                   pending = (if headerAccepted hw 0 \<and> \<not> headerAccepted hw 1 then HEADER @ CRLF else [])\<rparr>"
proof -
  let ?st1 = "setLED Red (powerOn c)"
  let ?n = "findNextFileNumber (if rootOpens hw then Some (map fst (SD_MMC ?st1)) else None)"
  let ?st2 = "?st1\<lparr>dataFileName := sessionFileName ?n\<rparr>"
  let ?st3 = "openWrite True (sessionFileName ?n) ?st2"
  let ?st4 = "filePrintln (headerAccepted hw 0) HEADER ?st3"
  let ?st5 = "fileFlush (headerAccepted hw 1) ?st4"
  have eq: "setup' hw (powerOn c) = Inr (setLED Green ?st5)"
    using assms by (simp add: setup'_def Let_def openWrite_created)
  have sh: "shown (setLED Green ?st5) = [Green, Red]"
    by (simp add: filePrintln_def openWrite_created powerOn_def)
  have c3: "fileContent ?st3 = Some \<lparr>durable = [], pending = []\<rparr>"
    by (rule openWrite_created)
  have c4: "fileContent ?st4 =
      Some \<lparr>durable = [], pending = (if headerAccepted hw 0 then HEADER @ CRLF else [])\<rparr>"
    by (cases "headerAccepted hw 0") (simp_all add: filePrintln_def fileContent_filePrint c3)
  have c5: "fileContent ?st5 =
      Some \<lparr>durable = (if headerAccepted hw 0 \<and> headerAccepted hw 1 then HEADER @ CRLF else []),
            pending = (if headerAccepted hw 0 \<and> \<not> headerAccepted hw 1 then HEADER @ CRLF else [])\<rparr>"
    by (cases "headerAccepted hw 1") (simp_all add: fileContent_fileFlush c4)
  from eq sh c5 show ?thesis by simp
qed


lemma loop_due:
  "READ_INTERVAL \<le> millisLoop tk - lastReadTime st \<Longrightarrow>
   loop tk st = (recordDataPoint tk st)\<lparr>lastReadTime := millisLoop tk\<rparr>"
  by (simp add: loop_def Let_def)

lemma loop_not_due:
  "\<not> READ_INTERVAL \<le> millisLoop tk - lastReadTime st \<Longrightarrow> loop tk st = st"
  by (simp add: loop_def)

lemma fileContent_lastReadTime [simp]:
  "fileContent (st\<lparr>lastReadTime := t\<rparr>) = fileContent st"
  by (simp add: fileContent_def split: option.splits)

lemma loop_failed_card:
  "sensor tk = None \<Longrightarrow> SD_MMC (loop tk st) = SD_MMC st \<and> dataFile (loop tk st) = dataFile st"
  by (simp add: loop_def Let_def recordDataPoint_failed)

lemma fold_loop_failed:
  "list_all (\<lambda>tk. sensor tk = None) ticks \<Longrightarrow>
   SD_MMC (fold loop ticks st) = SD_MMC st \<and> dataFile (fold loop ticks st) = dataFile st"
proof (induction ticks arbitrary: st)
  case Nil
  then show ?case by simp
next
  case (Cons tk ticks)
  then have "sensor tk = None" and rest: "list_all (\<lambda>tk. sensor tk = None) ticks" by simp_all
  from loop_failed_card [OF this(1), of st] Cons.IH [OF rest, of "loop tk st"]
  show ?case by simp
qed

lemma fold_recordDataPoint_rows:
  assumes "list_all recorded ticks"
    and "fileContent st = Some \<lparr>durable = d, pending = []\<rparr>"
  shows "fileContent (fold recordDataPoint ticks st) =
           Some \<lparr>durable = d @ concat (map csvRow ticks), pending = []\<rparr>"
  using assms
proof (induction ticks arbitrary: st d)
  case Nil
  then show ?case by simp
next
  case (Cons tk ticks)
  from Cons.prems(1) have now: "recorded tk" and rest: "list_all recorded ticks"
    by simp_all
  from now obtain r where r: "sensor tk = Some r" and a: "allAccepted (accepted tk)"
    by (auto simp: recorded_def)
  have "fileContent (recordDataPoint tk st) = Some \<lparr>durable = d @ csvRow tk, pending = []\<rparr>"
    by (simp add: recordDataPoint_row [OF r a] Cons.prems(2))
  from Cons.IH [OF rest this] show ?case by simp
qed

lemma lineCount_append [simp]: "lineCount (a @ b) = lineCount a + lineCount b"
  by (simp add: lineCount_def)

lemma lineCount_Cons [simp]:
  "lineCount (c # s) = (if c = CHR 0x0A then 1 else 0) + lineCount s"
  by (simp add: lineCount_def)

lemma lineCount_none: "CHR 0x0A \<notin> set s \<Longrightarrow> lineCount s = 0"
  by (induction s) (auto simp: lineCount_def [of "[]"])

lemma lineCount_decimalText: "lineCount (decimalText n) = 0"
proof (rule lineCount_none)
  have "list_all isDigit (decimalText n)" by (rule decimalText_digits)
  moreover have "\<not> isDigit (CHR 0x0A)" by (simp add: isDigit_def)
  ultimately show "CHR 0x0A \<notin> set (decimalText n)" by (auto simp: list_all_iff)
qed

lemma lineCount_CRLF: "lineCount CRLF = 1"
  by (simp add: lineCount_def CRLF_def)

lemma lineCount_HEADER: "lineCount HEADER = 0"
  by (simp add: lineCount_def HEADER_def)

lemma lineCount_csvRow:
  "sensor tk \<noteq> None \<Longrightarrow> oneLine tk \<Longrightarrow> lineCount (csvRow tk) = 1"
  by (auto simp: csvRow_def oneLine_def String_ulong_def lineCount_decimalText lineCount_CRLF
      lineCount_none)

lemma lineCount_rows:
  "list_all recorded ticks \<Longrightarrow> list_all oneLine ticks \<Longrightarrow>
   lineCount (concat (map csvRow ticks)) = length ticks"
  by (induction ticks) (simp_all add: lineCount_def [of "[]"] lineCount_csvRow recorded_def)

lemma setup_cases:
  "(\<exists>e st. setup' hw (powerOn c) = Inl (e, st) \<and> shown st = [Red]) \<or>
   (\<exists>st. setup' hw (powerOn c) = Inr st \<and> shown st = [Green, Red])"
proof (cases "sensorFound hw \<and> pinsAssigned hw \<and> cardMounted hw \<and> fileCreated hw")
  case True
  with setup_success [of hw c] show ?thesis by blast
next
  case False
  then have "\<not> sensorFound hw \<or> \<not> pinsAssigned hw \<or> \<not> cardMounted hw \<or> \<not> fileCreated hw"
    by blast
  from setup_failure [OF this, of c] show ?thesis by blast
qed

lemma recordDataPoint_changes: "recordDataPoint tk st\<lparr>lastReadTime := t\<rparr> \<noteq> st"
proof
  assume "recordDataPoint tk st\<lparr>lastReadTime := t\<rparr> = st"
  then have "shown (recordDataPoint tk st\<lparr>lastReadTime := t\<rparr>) = shown st" by simp
  then show False by (simp add: recordDataPoint_shown)
qed

lemma due_unat: "(READ_INTERVAL \<le> w) = (50 \<le> unat w)"
  by (simp add: READ_INTERVAL_def word_le_nat_alt)

lemma loop_changes: "(loop tk st \<noteq> st) = (50 \<le> unat (millisLoop tk - lastReadTime st))"
proof (cases "READ_INTERVAL \<le> millisLoop tk - lastReadTime st")
  case True
  then show ?thesis using recordDataPoint_changes by (simp add: loop_due due_unat [symmetric])
next
  case False
  then show ?thesis by (simp add: loop_not_due due_unat [symmetric])
qed

lemma firmware_append:
  "firmware hw c (xs @ ys) =
     (if halted (setup' hw (powerOn c)) then firmware hw c xs
      else fold loop ys (firmware hw c xs))"
  by (simp add: firmware_def halted_def split: sum.splits)

subsection \<open>The flushed content only grows\<close>

lemma durableOf_setLED [simp]: "durableOf (setLED c st) = durableOf st"
  by (simp add: durableOf_def)

lemma durableOf_lastReadTime [simp]: "durableOf (st\<lparr>lastReadTime := t\<rparr>) = durableOf st"
  by (simp add: durableOf_def)

lemma durableOf_filePrint [simp]: "durableOf (filePrint ok s st) = durableOf st"
  by (cases ok) (simp_all add: durableOf_def fileContent_filePrint option.map_comp comp_def)

lemma durableOf_fileFlush:
  assumes "durableOf st = Some d"
  shows "\<exists>x. durableOf (fileFlush ok st) = Some (d @ x)"
proof (cases ok)
  case False
  with assms show ?thesis by simp
next
  case True
  from assms obtain f where f: "fileContent st = Some f" and d: "durable f = d"
    by (auto simp: durableOf_def)
  from True f d have "durableOf (fileFlush ok st) = Some (d @ pending f)"
    by (simp add: durableOf_def fileContent_fileFlush)
  then show ?thesis ..
qed

lemma durableOf_recordDataPoint:
  assumes "durableOf st = Some d"
  shows "\<exists>x. durableOf (recordDataPoint tk st) = Some (d @ x)"
proof (cases "sensor tk")
  case None
  with assms show ?thesis by (simp add: recordDataPoint_failed)
next
  case (Some r)
  let ?s6 = "filePrintln (accepted tk 6) (temperature r)
     (filePrint (accepted tk 5) '',''
       (filePrint (accepted tk 4) (pressure r)
         (filePrint (accepted tk 3) '',''
           (filePrint (accepted tk 2) (altitude r)
             (filePrint (accepted tk 1) '',''
               (filePrint (accepted tk 0) (getTimestamp tk) st))))))"
  have "durableOf ?s6 = Some d" using assms by (simp add: filePrintln_def)
  from durableOf_fileFlush [OF this, of "accepted tk 7"]
  show ?thesis using Some by (simp add: recordDataPoint_def Let_def)
qed

lemma durableOf_loop:
  assumes "durableOf st = Some d"
  shows "\<exists>x. durableOf (loop tk st) = Some (d @ x)"
proof (cases "READ_INTERVAL \<le> millisLoop tk - lastReadTime st")
  case True
  with durableOf_recordDataPoint [OF assms, of tk] show ?thesis by (simp add: loop_due)
next
  case False
  with assms show ?thesis by (simp add: loop_not_due)
qed

lemma durableOf_fold_loop:
  assumes "durableOf st = Some d"
  shows "\<exists>x. durableOf (fold loop ticks st) = Some (d @ x)"
  using assms
proof (induction ticks arbitrary: st d)
  case Nil
  then show ?case by simp
next
  case (Cons tk ticks)
  from durableOf_loop [OF Cons.prems, of tk]
  obtain x where "durableOf (loop tk st) = Some (d @ x)" ..
  from Cons.IH [OF this] obtain y where "durableOf (fold loop ticks (loop tk st)) = Some ((d @ x) @ y)" ..
  then have "durableOf (fold loop (tk # ticks) st) = Some (d @ (x @ y))" by simp
  then show ?case ..
qed


section \<open>File numbering\<close>

text \<open>
  C6. For every sequence number from 1 to 99999 the numeric field that \<open>padNumber\<close>
  produces has exactly five characters, all of them decimal digits: the decimal text of
  the number with zeros added on the left. It reads back as the number, and it is the
  numeric field of the session file's name (number 4 gives \<open>flight_00004.csv\<close>).
\<close>

theorem padNumber_five_digits:
  assumes "1 \<le> n" and "n \<le> 99999"
  shows "length (padNumber n 5) = 5 \<and> list_all isDigit (padNumber n 5) \<and>
         padNumber n 5 = replicate (5 - length (String_int n)) CHR ''0'' @ String_int n \<and>
         toInt (padNumber n 5) = n \<and>
         numberPart (entryName (sessionFileName n)) = padNumber n 5"
proof -
  have "numberPart (entryName (sessionFileName n)) = padNumber n 5"
    by (simp add: sessionFileName_def entryName_def numberPart_affix)
  with padNumber_decimal [OF assms] show ?thesis by simp
qed

text \<open>The instance of the specification's example: number 4.\<close>

theorem padNumber_five_digits_witness:
  "(1::int) \<le> 4 \<and> (4::int) \<le> 99999 \<and> padNumber 4 5 = ''00004'' \<and>
   sessionFileName 4 = ''/flight_00004.csv'' \<and> length (padNumber 4 5) = 5 \<and>
   toInt (padNumber 4 5) = 4"
proof -
  have a: "(1::int) \<le> 4" and b: "(4::int) \<le> 99999" by simp_all
  have c: "padNumber 4 5 = ''00004''" and d: "sessionFileName 4 = ''/flight_00004.csv''"
    by code_simp+
  from padNumber_five_digits [OF a b]
  have "length (padNumber 4 5) = 5 \<and> toInt (padNumber 4 5) = 4" by blast
  with a b c d show ?thesis by blast
qed

text \<open>
  C1, as the specification states it, fails: a malformed name that starts with the
  prefix and ends with the extension is not ignored. \<open>flight_7x.csv\<close> does not have
  the shape prefix, digits, extension, so the specification's allocation gives 1, as
  for an empty directory; \<open>findNextFileNumber\<close> reads its leading digit and returns 8.
\<close>

theorem findNextFileNumber_ignores_malformed_counterexample:
  "\<not> matchesPattern ''flight_7x.csv'' \<and>
   specNextNumber [''flight_7x.csv''] = 1 \<and>
   findNextFileNumber (Some [''flight_7x.csv'']) = 8 \<and>
   findNextFileNumber (Some []) = 1"
  by code_simp

text \<open>
  C1, amended. For every directory listing, \<open>findNextFileNumber\<close> returns the largest
  of 0 and the numbers \<open>toInt\<close> reads from the names that start with the prefix and
  end with the extension, plus 1 (in 32-bit arithmetic); names that do not start with
  the prefix or do not end with the extension never influence the result, and with no
  name of that kind the result is 1. When every number read is below the largest
  \<open>int\<close>, the addition does not wrap and the result is strictly greater than the
  number of every such name. A name has that kind exactly when it is the prefix, any
  text, and the extension; when the text is a run of digits spelling a number within
  the range of \<open>long\<close>, the number read is the number spelt.
\<close>

theorem findNextFileNumber_max:
  "findNextFileNumber (Some names) =
     wrapInt (Max (insert 0 (flightNumber ` {f \<in> set names. isFlightFile f})) + 1) \<and>
   findNextFileNumber (Some (filter isFlightFile names)) = findNextFileNumber (Some names) \<and>
   ({f \<in> set names. isFlightFile f} = {} \<longrightarrow> findNextFileNumber (Some names) = 1) \<and>
   ((\<forall>f \<in> set names. isFlightFile f \<longrightarrow> flightNumber f < LONG_MAX) \<longrightarrow>
      findNextFileNumber (Some names) =
        Max (insert 0 (flightNumber ` {f \<in> set names. isFlightFile f})) + 1 \<and>
      (\<forall>f \<in> set names. isFlightFile f \<longrightarrow> flightNumber f < findNextFileNumber (Some names))) \<and>
   (isFlightFile g \<longleftrightarrow> (\<exists>mid. g = FILE_PREFIX @ mid @ FILE_EXTENSION)) \<and>
   (list_all isDigit ds \<and> int (decimalValue ds) \<le> LONG_MAX \<longrightarrow>
      flightNumber (FILE_PREFIX @ ds @ FILE_EXTENSION) = int (decimalValue ds))"
proof -
  let ?S = "flightNumber ` {f \<in> set names. isFlightFile f}"
  let ?M = "Max (insert 0 ?S)"
  have fin: "finite (insert 0 ?S)" by simp
  have r: "findNextFileNumber (Some names) = wrapInt (?M + 1)"
    by (simp add: findNextFileNumber_def scanFiles_Max)
  have flt: "findNextFileNumber (Some (filter isFlightFile names)) = findNextFileNumber (Some names)"
    by (simp add: findNextFileNumber_def scanFiles_filter)
  have none: "findNextFileNumber (Some names) = 1" if e: "{f \<in> set names. isFlightFile f} = {}"
  proof -
    have "?M = 0" by (simp only: e image_empty Max_singleton)
    then show ?thesis by (simp add: r wrapInt_def)
  qed
  have small: "findNextFileNumber (Some names) = ?M + 1 \<and>
      (\<forall>f \<in> set names. isFlightFile f \<longrightarrow> flightNumber f < findNextFileNumber (Some names))"
    if h: "\<forall>f \<in> set names. isFlightFile f \<longrightarrow> flightNumber f < LONG_MAX"
  proof -
    have "?M \<in> insert 0 ?S" by (rule Max_in [OF fin]) simp
    with h have up: "?M < LONG_MAX" by (auto simp: LONG_MAX_def)
    have lo: "0 \<le> ?M" by (rule Max_ge [OF fin]) simp
    from up have le: "?M + 1 \<le> LONG_MAX" by linarith
    from lo have ge: "LONG_MIN \<le> ?M + 1" unfolding LONG_MIN_def by linarith
    have eq: "wrapInt (?M + 1) = ?M + 1" by (rule wrapInt_id [OF ge le])
    have "flightNumber f \<le> ?M" if "f \<in> set names" "isFlightFile f" for f
      using that by (intro Max_ge [OF fin]) auto
    then show ?thesis by (auto simp: r eq intro: le_less_trans)
  qed
  have dig: "flightNumber (FILE_PREFIX @ ds @ FILE_EXTENSION) = int (decimalValue ds)"
    if "list_all isDigit ds" "int (decimalValue ds) \<le> LONG_MAX"
    using that by (simp add: flightNumber_def numberPart_affix toInt_digits clampLong_def LONG_MIN_def)
  from r flt none small dig isFlightFile_iff [of g] show ?thesis by blast
qed

text \<open>The specification's scenario: \<open>flight_00003.csv\<close> and \<open>notes.txt\<close> give 4.\<close>

theorem findNextFileNumber_max_witness:
  "isFlightFile ''flight_00003.csv'' \<and> \<not> isFlightFile ''notes.txt'' \<and>
   flightNumber ''flight_00003.csv'' = 3 \<and>
   findNextFileNumber (Some [''flight_00003.csv'', ''notes.txt'']) = 4 \<and>
   flightNumber ''flight_00003.csv'' < findNextFileNumber (Some [''flight_00003.csv'', ''notes.txt''])"
proof -
  let ?names = "[''flight_00003.csv'', ''notes.txt'']"
  have a: "isFlightFile ''flight_00003.csv''" and b: "\<not> isFlightFile ''notes.txt''"
    and c: "flightNumber ''flight_00003.csv'' = 3"
    by code_simp+
  have d: "findNextFileNumber (Some ?names) = 4" by code_simp
  from a b c have h: "\<forall>f \<in> set ?names. isFlightFile f \<longrightarrow> flightNumber f < LONG_MAX"
    by (simp add: LONG_MAX_def)
  from findNextFileNumber_max [of ?names] h
  have "\<forall>f \<in> set ?names. isFlightFile f \<longrightarrow> flightNumber f < findNextFileNumber (Some ?names)"
    by blast
  with a have "flightNumber ''flight_00003.csv'' < findNextFileNumber (Some ?names)" by simp
  with a b c d show ?thesis by blast
qed

section \<open>Startup\<close>




text \<open>
  C3, as the specification states it, fails: a header that the card rejects does not
  stop \<open>setup\<close>. With hardware that answers every other call, \<open>setup\<close> returns, the
  indicator is green, and the first reading is written to a file that has no header.
\<close>

theorem header_failure_is_fatal_counterexample:
  "sensorFound (goodHardware\<lparr>headerAccepted := never\<rparr>) \<and>
   \<not> headerAccepted (goodHardware\<lparr>headerAccepted := never\<rparr>) 0 \<and>
   \<not> halted (setup' (goodHardware\<lparr>headerAccepted := never\<rparr>) (powerOn [])) \<and>
   indicator (firmware (goodHardware\<lparr>headerAccepted := never\<rparr>) [] []) = Some Green \<and>
   fileContent (firmware (goodHardware\<lparr>headerAccepted := never\<rparr>) [] [sampleA]) =
     Some \<lparr>durable = ''1000,12.50,1008.20,22.10'' @ CRLF, pending = []\<rparr>"
  by code_simp

text \<open>
  C3, amended. The outcome of writing the header is never read: once the session file
  is open, \<open>setup\<close> returns with the indicator green and \<open>loop\<close> runs, whether or not
  the header was accepted. When \<open>println\<close> and \<open>flush\<close> are accepted the new file holds
  exactly the header line, flushed, right after its creation, and after any number of
  passes of \<open>loop\<close> the flushed content still starts with it; when \<open>println\<close> is
  rejected the file is left empty.
\<close>

theorem header_written_unchecked:
  assumes "sensorFound hw" and "pinsAssigned hw" and "cardMounted hw" and "fileCreated hw"
  shows "\<not> halted (setup' hw (powerOn c)) \<and>
         shown (stateOf (setup' hw (powerOn c))) = [Green, Red] \<and>
         firmware hw c ticks = fold loop ticks (stateOf (setup' hw (powerOn c))) \<and>
         (headerAccepted hw 0 \<and> headerAccepted hw 1 \<longrightarrow>
            fileContent (stateOf (setup' hw (powerOn c))) =
              Some \<lparr>durable = HEADER @ CRLF, pending = []\<rparr> \<and>
            (\<exists>rows. durableOf (firmware hw c ticks) = Some (HEADER @ CRLF @ rows))) \<and>
         (\<not> headerAccepted hw 0 \<longrightarrow>
            fileContent (stateOf (setup' hw (powerOn c))) = Some \<lparr>durable = [], pending = []\<rparr>)"
proof -
  from setup_success [OF assms, of c] obtain st
    where st: "setup' hw (powerOn c) = Inr st" and sh: "shown st = [Green, Red]"
      and fc: "fileContent st =
        Some \<lparr>durable = (if headerAccepted hw 0 \<and> headerAccepted hw 1 then HEADER @ CRLF else []),
              pending = (if headerAccepted hw 0 \<and> \<not> headerAccepted hw 1 then HEADER @ CRLF else [])\<rparr>"
    by blast
  have run: "firmware hw c ticks = fold loop ticks st"
    by (simp add: firmware_def st)
  have rows: "\<exists>rows. durableOf (firmware hw c ticks) = Some (HEADER @ CRLF @ rows)"
    if "headerAccepted hw 0" "headerAccepted hw 1"
  proof -
    from that fc have "durableOf st = Some (HEADER @ CRLF)" by (simp add: durableOf_def)
    from durableOf_fold_loop [OF this, of ticks] show ?thesis by (simp add: run)
  qed
  from st sh fc run rows show ?thesis
    by (simp add: halted_def stateOf_def)
qed

theorem header_written_unchecked_witness:
  "sensorFound goodHardware \<and> pinsAssigned goodHardware \<and> cardMounted goodHardware \<and>
   fileCreated goodHardware \<and> headerAccepted goodHardware 0 \<and> headerAccepted goodHardware 1 \<and>
   \<not> halted (setup' goodHardware (powerOn exampleCard)) \<and>
   fileContent (stateOf (setup' goodHardware (powerOn exampleCard))) =
     Some \<lparr>durable = HEADER @ CRLF, pending = []\<rparr>"
proof -
  have h: "sensorFound goodHardware" "pinsAssigned goodHardware" "cardMounted goodHardware"
    "fileCreated goodHardware"
    and a: "headerAccepted goodHardware 0" "headerAccepted goodHardware 1"
    by (simp_all add: goodHardware_def always_def)
  from header_written_unchecked [OF h, of exampleCard "[]"] a h
  show ?thesis by blast
qed

section \<open>Recording\<close>

text \<open>
  C4. A pass whose poll fails writes nothing: the card is unchanged (so is every
  file's line count), the indicator is set red, and a due pass moves the marker to the
  current time. Any number of failing passes leave the card and the session file as
  they were, and the run goes on: the next due pass with a reading, when the card
  accepts it, appends its row and sets the indicator green.
\<close>

theorem poll_failure_writes_nothing:
  "(sensor tk = None \<longrightarrow>
      SD_MMC (recordDataPoint tk st) = SD_MMC st \<and>
      indicator (recordDataPoint tk st) = Some Red \<and>
      SD_MMC (loop tk st) = SD_MMC st \<and>
      (READ_INTERVAL \<le> millisLoop tk - lastReadTime st \<longrightarrow>
         indicator (loop tk st) = Some Red \<and> lastReadTime (loop tk st) = millisLoop tk)) \<and>
   (list_all (\<lambda>t. sensor t = None) ticks \<longrightarrow>
      SD_MMC (fold loop ticks st) = SD_MMC st \<and>
      fileContent (fold loop ticks st) = fileContent st \<and>
      (sensor next \<noteq> None \<and> allAccepted (accepted next) \<and>
       READ_INTERVAL \<le> millisLoop next - lastReadTime (fold loop ticks st) \<longrightarrow>
         indicator (loop next (fold loop ticks st)) = Some Green \<and>
         fileContent (loop next (fold loop ticks st)) =
           map_option (\<lambda>f. \<lparr>durable = durable f @ pending f @ csvRow next, pending = []\<rparr>)
             (fileContent st)))"
proof -
  have one: "SD_MMC (recordDataPoint tk st) = SD_MMC st \<and>
      indicator (recordDataPoint tk st) = Some Red \<and>
      SD_MMC (loop tk st) = SD_MMC st \<and>
      (READ_INTERVAL \<le> millisLoop tk - lastReadTime st \<longrightarrow>
         indicator (loop tk st) = Some Red \<and> lastReadTime (loop tk st) = millisLoop tk)"
    if f: "sensor tk = None"
    using loop_failed_card [OF f, of st]
    by (simp add: recordDataPoint_failed [OF f] indicator_def loop_due)
  have many: "SD_MMC (fold loop ticks st) = SD_MMC st \<and>
      fileContent (fold loop ticks st) = fileContent st \<and>
      (sensor next \<noteq> None \<and> allAccepted (accepted next) \<and>
       READ_INTERVAL \<le> millisLoop next - lastReadTime (fold loop ticks st) \<longrightarrow>
         indicator (loop next (fold loop ticks st)) = Some Green \<and>
         fileContent (loop next (fold loop ticks st)) =
           map_option (\<lambda>f. \<lparr>durable = durable f @ pending f @ csvRow next, pending = []\<rparr>)
             (fileContent st))"
    if fs: "list_all (\<lambda>t. sensor t = None) ticks"
  proof -
    let ?st = "fold loop ticks st"
    from fold_loop_failed [OF fs, of st]
    have same: "SD_MMC ?st = SD_MMC st" "dataFile ?st = dataFile st" by simp_all
    then have fc: "fileContent ?st = fileContent st"
      by (simp add: fileContent_def split: option.splits)
    have nxt: "indicator (loop next ?st) = Some Green \<and>
        fileContent (loop next ?st) =
          map_option (\<lambda>f. \<lparr>durable = durable f @ pending f @ csvRow next, pending = []\<rparr>)
            (fileContent st)"
      if r: "sensor next \<noteq> None" and a: "allAccepted (accepted next)"
        and d: "READ_INTERVAL \<le> millisLoop next - lastReadTime ?st"
    proof -
      from r obtain v where v: "sensor next = Some v" by auto
      show ?thesis
        by (simp add: loop_due [OF d] recordDataPoint_row [OF v a] fc indicator_def
            recordDataPoint_shown v)
    qed
    from same fc nxt show ?thesis by blast
  qed
  from one many show ?thesis by blast
qed

text \<open>One reading, two failed polls, then a reading fifty milliseconds later.\<close>

theorem poll_failure_writes_nothing_witness:
  "sensor failingTick = None \<and>
   list_all (\<lambda>t. sensor t = None) [failingTick, failingTick\<lparr>millisLoop := 1150\<rparr>] \<and>
   sensor lateTick \<noteq> None \<and> allAccepted (accepted lateTick) \<and>
   SD_MMC (loop failingTick (firmware goodHardware exampleCard [sampleA])) =
     SD_MMC (firmware goodHardware exampleCard [sampleA]) \<and>
   indicator (loop failingTick (firmware goodHardware exampleCard [sampleA])) = Some Red \<and>
   fileContent (firmware goodHardware exampleCard
       [sampleA, failingTick, failingTick\<lparr>millisLoop := 1150\<rparr>]) =
     fileContent (firmware goodHardware exampleCard [sampleA]) \<and>
   indicator (firmware goodHardware exampleCard
       [sampleA, failingTick, failingTick\<lparr>millisLoop := 1150\<rparr>, lateTick]) = Some Green"
proof -
  let ?st = "firmware goodHardware exampleCard [sampleA]"
  let ?fails = "[failingTick, failingTick\<lparr>millisLoop := 1150\<rparr>]"
  have a: "sensor failingTick = None" by (simp add: failingTick_def)
  then have b: "list_all (\<lambda>t. sensor t = None) ?fails" by simp
  have c: "sensor lateTick \<noteq> None" and d: "allAccepted (accepted lateTick)"
    by (simp_all add: lateTick_def sampleB_def allAccepted_def always_def)
  have t: "lastReadTime ?st = 1000" by code_simp
  have e: "READ_INTERVAL \<le> millisLoop failingTick - lastReadTime ?st"
    by (simp add: t failingTick_def READ_INTERVAL_def)
  have t': "lastReadTime (fold loop ?fails ?st) = 1150" by code_simp
  have f: "READ_INTERVAL \<le> millisLoop lateTick - lastReadTime (fold loop ?fails ?st)"
    unfolding t' by (simp add: lateTick_def READ_INTERVAL_def)
  have h: "\<not> halted (setup' goodHardware (powerOn exampleCard))" by code_simp
  have r1: "firmware goodHardware exampleCard (sampleA # ?fails) = fold loop ?fails ?st"
    using firmware_append [of goodHardware exampleCard "[sampleA]" ?fails] h by simp
  have r2: "firmware goodHardware exampleCard (sampleA # ?fails @ [lateTick]) =
      loop lateTick (fold loop ?fails ?st)"
    using firmware_append [of goodHardware exampleCard "[sampleA]" "?fails @ [lateTick]"] h
    by simp
  from poll_failure_writes_nothing [of failingTick ?st ?fails lateTick] a b c d e f
  have "SD_MMC (loop failingTick ?st) = SD_MMC ?st"
    and "indicator (loop failingTick ?st) = Some Red"
    and "fileContent (fold loop ?fails ?st) = fileContent ?st"
    and "indicator (loop lateTick (fold loop ?fails ?st)) = Some Green"
    by blast+
  with a b c d r1 r2 show ?thesis by simp
qed

text \<open>
  C5. After a startup that wrote the header, successful recordings (a reading, and
  every storage call accepted) append their rows in call order, each row
  \<open>timestamp,altitude,pressure,temperature\<close> ended by CR LF and flushed at once: after
  \<open>N\<close> of them the file holds the header line followed by exactly the \<open>N\<close> rows, with
  nothing left unflushed, and (the rendered values holding no line feed) \<open>N + 1\<close>
  lines.
\<close>

theorem rows_appended_in_order:
  assumes "setup' hw (powerOn c) = Inr st"
    and "headerAccepted hw 0" and "headerAccepted hw 1"
    and "list_all recorded ticks"
  shows "fileContent (fold recordDataPoint ticks st) =
           Some \<lparr>durable = HEADER @ CRLF @ concat (map csvRow ticks), pending = []\<rparr> \<and>
         length (map csvRow ticks) = length ticks \<and>
         (list_all oneLine ticks \<longrightarrow>
            lineCount (HEADER @ CRLF @ concat (map csvRow ticks)) = Suc (length ticks))"
proof -
  have ok: "sensorFound hw \<and> pinsAssigned hw \<and> cardMounted hw \<and> fileCreated hw"
  proof (rule ccontr)
    assume "\<not> ?thesis"
    then have "\<not> sensorFound hw \<or> \<not> pinsAssigned hw \<or> \<not> cardMounted hw \<or> \<not> fileCreated hw"
      by blast
    from setup_failure [OF this, of c] assms(1) show False by auto
  qed
  with setup_success [of hw c] assms(1-3)
  have fc: "fileContent st = Some \<lparr>durable = HEADER @ CRLF, pending = []\<rparr>" by auto
  from fold_recordDataPoint_rows [OF assms(4) fc]
  have "fileContent (fold recordDataPoint ticks st) =
      Some \<lparr>durable = HEADER @ CRLF @ concat (map csvRow ticks), pending = []\<rparr>" by simp
  moreover have "lineCount (HEADER @ CRLF @ concat (map csvRow ticks)) = Suc (length ticks)"
    if "list_all oneLine ticks"
    using that assms(4) by (simp add: lineCount_HEADER lineCount_CRLF lineCount_rows)
  ultimately show ?thesis by simp
qed

text \<open>The two readings of the specification's scenario.\<close>

theorem rows_appended_in_order_witness:
  "headerAccepted goodHardware 0 \<and> headerAccepted goodHardware 1 \<and>
   list_all recorded [sampleA, sampleB] \<and>
   fileContent (fold recordDataPoint [sampleA, sampleB]
       (stateOf (setup' goodHardware (powerOn exampleCard)))) =
     Some \<lparr>durable = HEADER @ CRLF @ concat (map csvRow [sampleA, sampleB]), pending = []\<rparr> \<and>
   concat (map csvRow [sampleA, sampleB]) =
     ''1000,12.50,1008.20,22.10'' @ CRLF @ ''1050,12.70,1008.10,22.10'' @ CRLF"
proof -
  let ?st = "stateOf (setup' goodHardware (powerOn exampleCard))"
  have s: "setup' goodHardware (powerOn exampleCard) = Inr ?st" by code_simp
  have a: "headerAccepted goodHardware 0" "headerAccepted goodHardware 1"
    by (simp_all add: goodHardware_def always_def)
  have r: "list_all recorded [sampleA, sampleB]" by code_simp
  have t: "concat (map csvRow [sampleA, sampleB]) =
     ''1000,12.50,1008.20,22.10'' @ CRLF @ ''1050,12.70,1008.10,22.10'' @ CRLF" by code_simp
  from rows_appended_in_order [OF s a r] a r t show ?thesis by blast
qed

text \<open>
  C10. After a successful poll the indicator is green whatever the storage calls
  answered: the history of the pixel does not depend on their outcomes, and a row
  that the card rejected entirely (the card is unchanged) still ends in green.
\<close>

theorem write_failure_not_signalled:
  "(sensor tk \<noteq> None \<longrightarrow>
      indicator (recordDataPoint tk st) = Some Green \<and>
      (noneAccepted (accepted tk) \<longrightarrow> SD_MMC (recordDataPoint tk st) = SD_MMC st)) \<and>
   shown (recordDataPoint (tk\<lparr>accepted := a\<rparr>) st) = shown (recordDataPoint tk st)"
  by (simp add: recordDataPoint_shown indicator_def recordDataPoint_none_accepted
      split: option.splits)

theorem write_failure_not_signalled_witness:
  "sensor rejectedTick \<noteq> None \<and> noneAccepted (accepted rejectedTick) \<and>
   indicator (recordDataPoint rejectedTick (firmware goodHardware exampleCard [])) = Some Green \<and>
   SD_MMC (recordDataPoint rejectedTick (firmware goodHardware exampleCard [])) =
     SD_MMC (firmware goodHardware exampleCard [])"
proof -
  have a: "sensor rejectedTick \<noteq> None" and b: "noneAccepted (accepted rejectedTick)"
    by (simp_all add: rejectedTick_def sampleA_def noneAccepted_def never_def)
  from write_failure_not_signalled [of rejectedTick "firmware goodHardware exampleCard []"] a b
  show ?thesis by blast
qed

section \<open>Scheduling\<close>

text \<open>
  C7. A pass of \<open>loop\<close> runs \<open>recordDataPoint\<close> exactly when the unsigned difference
  between the clock and the marker is at least 50: then the marker becomes the clock
  value and the pixel is driven once; otherwise the pass leaves the whole state as it
  was. A pass changes the state exactly when it is due.
\<close>

theorem loop_cadence:
  "(READ_INTERVAL \<le> millisLoop tk - lastReadTime st \<longrightarrow>
      loop tk st = (recordDataPoint tk st)\<lparr>lastReadTime := millisLoop tk\<rparr> \<and>
      lastReadTime (loop tk st) = millisLoop tk \<and>
      length (shown (loop tk st)) = Suc (length (shown st))) \<and>
   (\<not> READ_INTERVAL \<le> millisLoop tk - lastReadTime st \<longrightarrow> loop tk st = st) \<and>
   (READ_INTERVAL \<le> millisLoop tk - lastReadTime st) =
     (50 \<le> unat (millisLoop tk - lastReadTime st)) \<and>
   (loop tk st \<noteq> st) = (50 \<le> unat (millisLoop tk - lastReadTime st))"
proof -
  have "length (shown (loop tk st)) = Suc (length (shown st))"
    if "READ_INTERVAL \<le> millisLoop tk - lastReadTime st"
    using that by (simp add: loop_due recordDataPoint_shown)
  with loop_due [of tk st] loop_not_due [of tk st] due_unat [of "millisLoop tk - lastReadTime st"]
    loop_changes [of tk st]
  show ?thesis by simp
qed

text \<open>Marker at 1000: a pass at 1050 is due, a pass at 1049 is not.\<close>

theorem loop_cadence_witness:
  "READ_INTERVAL \<le> millisLoop sampleB - lastReadTime (firmware goodHardware [] [sampleA]) \<and>
   lastReadTime (loop sampleB (firmware goodHardware [] [sampleA])) = millisLoop sampleB \<and>
   \<not> READ_INTERVAL \<le> millisLoop (sampleB\<lparr>millisLoop := 1049\<rparr>)
       - lastReadTime (firmware goodHardware [] [sampleA]) \<and>
   loop (sampleB\<lparr>millisLoop := 1049\<rparr>) (firmware goodHardware [] [sampleA])
     = firmware goodHardware [] [sampleA]"
proof -
  let ?st = "firmware goodHardware [] [sampleA]"
  have t: "lastReadTime ?st = 1000" by code_simp
  have a: "READ_INTERVAL \<le> millisLoop sampleB - lastReadTime ?st"
    by (simp add: t sampleB_def READ_INTERVAL_def)
  have b: "\<not> READ_INTERVAL \<le> millisLoop (sampleB\<lparr>millisLoop := 1049\<rparr>) - lastReadTime ?st"
    by (simp add: t READ_INTERVAL_def)
  from loop_cadence [of sampleB ?st] loop_cadence [of "sampleB\<lparr>millisLoop := 1049\<rparr>" ?st] a b
  show ?thesis by blast
qed

text \<open>
  C9. With \<open>T0\<close> and \<open>T1\<close> the true times in milliseconds of the last reading and of
  the present pass, and the 32-bit clock showing them modulo \<open>2 ^ 32\<close>, the difference
  \<open>loop\<close> computes is \<open>(T1 - T0) mod 2 ^ 32\<close>, also when the clock has wrapped between
  the two; so the pass is due exactly when that is at least 50, and whenever less than
  \<open>2 ^ 32\<close> milliseconds have passed, exactly when at least 50 milliseconds have
  passed.
\<close>

theorem elapsed_modulo_wraparound:
  assumes "T0 \<le> T1" and "lastReadTime st = of_nat T0" and "millisLoop tk = of_nat T1"
  shows "unat (millisLoop tk - lastReadTime st) = (T1 - T0) mod 2 ^ 32 \<and>
         (READ_INTERVAL \<le> millisLoop tk - lastReadTime st) = (50 \<le> (T1 - T0) mod 2 ^ 32) \<and>
         (loop tk st \<noteq> st) = (50 \<le> (T1 - T0) mod 2 ^ 32) \<and>
         (T1 - T0 < 2 ^ 32 \<longrightarrow> (loop tk st \<noteq> st) = (50 \<le> T1 - T0))"
proof -
  have "millisLoop tk - lastReadTime st = (of_nat (T1 - T0) :: 32 word)"
    using assms by (simp add: of_nat_diff)
  then have u: "unat (millisLoop tk - lastReadTime st) = (T1 - T0) mod 2 ^ 32"
    by (simp add: unat_of_nat)
  with due_unat [of "millisLoop tk - lastReadTime st"] loop_changes [of tk st]
  show ?thesis by simp
qed

text \<open>The clock wraps between the marker (6 ms before) and the pass (54 ms after).\<close>

theorem elapsed_modulo_wraparound_witness:
  "(4294967290::nat) \<le> 4294967350 \<and>
   lastReadTime nearWrap = of_nat 4294967290 \<and>
   millisLoop (sampleA\<lparr>millisLoop := 54\<rparr>) = of_nat 4294967350 \<and>
   unat (millisLoop (sampleA\<lparr>millisLoop := 54\<rparr>) - lastReadTime nearWrap) = 60 \<and>
   loop (sampleA\<lparr>millisLoop := 54\<rparr>) nearWrap \<noteq> nearWrap"
proof -
  have a: "(4294967290::nat) \<le> 4294967350" by simp
  have b: "lastReadTime nearWrap = of_nat 4294967290" by (simp add: nearWrap_def)
  have c: "millisLoop (sampleA\<lparr>millisLoop := 54\<rparr>) = of_nat 4294967350" by simp
  from elapsed_modulo_wraparound [OF a b c] a b c show ?thesis by simp
qed

section \<open>The status indicator\<close>



end
